theory Spec2Isabelle
  imports Complex_Main "HOL-Library.Word"
begin

unbundle bit_operations_syntax

section \<open>JavaScript numbers and typed arrays, as far as kaitai-stream.ts uses them\<close>

text \<open>
  A JavaScript number is a double. The counters of the stream only ever hold whole
  numbers, so those are \<open>int\<close>; the byte position can be set to any finite number by
  \<open>seek\<close>, so it is a \<open>real\<close>; the argument of \<open>seek\<close> can also be NaN or an infinity,
  so it is a \<open>jsnum\<close>. Comparison, \<open>Math.min\<close> and \<open>Math.max\<close> do not round, so they
  are exact on the reals that are doubles. Signed zero is not distinguished.

  Sums, differences and products are rounded by the code to the nearest double:
  \<^item> where the operands are whole numbers (the readers of 64 bits), the result is
    rounded here too, by \<open>to_double\<close>;
  \<^item> where the position takes part (\<open>pos + length\<close>, \<open>size - pos\<close>,
    \<open>byteOffset + pos\<close>), the sum is kept exact here. That is what the code computes
    whenever the position is a whole number and position and size are below 2^53
    (\<open>whole_position\<close>); at other positions the code's sum can differ from the exact
    one in the last place. Properties that depend on the value of such a sum are stated
    for whole positions.

  The bit operators work on 32 bits: each operand goes through ToInt32 (the value modulo
  2^32), shift counts are taken modulo 32, and the result is a signed 32-bit number, except
  for \<open>>>>\<close> whose result is unsigned.
\<close>

type_synonym byte = "8 word"
type_synonym int32 = "32 word"

datatype jsnum = Fin real | PInf | NInf | NaN

definition ToInt32 :: "int \<Rightarrow> int32" where
  "ToInt32 x = word_of_int x"

definition js_and :: "int \<Rightarrow> int \<Rightarrow> int" where
  "js_and a b = sint (ToInt32 a AND ToInt32 b)"

definition js_or :: "int \<Rightarrow> int \<Rightarrow> int" where
  "js_or a b = sint (ToInt32 a OR ToInt32 b)"

definition js_xor :: "int \<Rightarrow> int \<Rightarrow> int" where
  "js_xor a b = sint (ToInt32 a XOR ToInt32 b)"

text \<open>\<open>a << k\<close>, \<open>a >> k\<close> (sign-propagating) and \<open>a >>> k\<close> (zero-filling).\<close>

definition js_shl :: "int \<Rightarrow> int \<Rightarrow> int" where
  "js_shl a k = sint (push_bit (nat (k mod 32)) (ToInt32 a))"

definition js_sar :: "int \<Rightarrow> int \<Rightarrow> int" where
  "js_sar a k = sint (signed_drop_bit (nat (k mod 32)) (ToInt32 a))"

definition js_shr :: "int \<Rightarrow> int \<Rightarrow> int" where
  "js_shr a k = uint (drop_bit (nat (k mod 32)) (ToInt32 a))"

text \<open>
  A store into a \<open>Uint8Array\<close> keeps the value modulo 256. A read of a typed array or of
  a \<open>number[]\<close> past its end gives \<open>undefined\<close>, here \<open>None\<close>.
\<close>

definition ToUint8 :: "int \<Rightarrow> byte" where
  "ToUint8 x = word_of_int x"

definition u8_get :: "byte list \<Rightarrow> nat \<Rightarrow> int option" where
  "u8_get arr i = (if i < length arr then Some (uint (arr ! i)) else None)"

definition num_get :: "int list \<Rightarrow> nat \<Rightarrow> int option" where
  "num_get arr i = (if i < length arr then Some (arr ! i) else None)"

text \<open>An operand \<open>undefined\<close> of a bit operator counts as 0.\<close>

definition num_or_0 :: "int option \<Rightarrow> int" where
  "num_or_0 x = (case x of None \<Rightarrow> 0 | Some v \<Rightarrow> v)"

text \<open>Truncation towards zero, the first step of ToInt32 and of ToIndex.\<close>

definition js_trunc :: "real \<Rightarrow> int" where
  "js_trunc r = (if r \<ge> 0 then \<lfloor>r\<rfloor> else \<lceil>r\<rceil>)"

text \<open>
  The double nearest to a whole number, ties to even: a double has 53 significant bits,
  so a whole number below 2^53 in magnitude is a double, and a larger one is rounded to
  a multiple of \<open>2 ^ e\<close> for the least \<open>e\<close> that leaves 53 bits. (No number here comes
  near 2^1024, where the result would be an infinity.)
\<close>

function double_exp :: "int \<Rightarrow> nat \<Rightarrow> nat" where
  "double_exp a e = (if a < 2 ^ (53 + e) then e else double_exp a (e + 1))"
  by pat_completeness auto
termination
proof (relation "measure (\<lambda>(a, e). nat (a + 1 - 2 ^ (53 + e)))")
  fix a :: int and e :: nat
  assume "\<not> a < 2 ^ (53 + e)"
  then have "(2::int) ^ (53 + e) < a + 1" by simp
  moreover have "(2::int) ^ (53 + e) < 2 ^ (53 + (e + 1))" by simp
  ultimately have "nat (a + 1 - 2 ^ (53 + (e + 1))) < nat (a + 1 - 2 ^ (53 + e))"
    by linarith
  then show "((a, e + 1), (a, e)) \<in> measure (\<lambda>(a, e). nat (a + 1 - 2 ^ (53 + e)))"
    by simp
qed simp

definition to_double :: "int \<Rightarrow> int" where
  "to_double x =
     (let a = \<bar>x\<bar> in
      if a < 2 ^ 53 then x
      else (let u = 2 ^ double_exp a 0; q = a div u; r = a mod u;
                m = (if 2 * r < u then q else if 2 * r > u then q + 1
                     else if even q then q else q + 1)
            in sgn x * (m * u)))"

text \<open>\<open>Math.min\<close>, \<open>Math.max\<close>, \<open>isNaN\<close> and \<open>isFinite\<close>.\<close>

fun js_le :: "jsnum \<Rightarrow> jsnum \<Rightarrow> bool" where
  "js_le NaN _ = False"
| "js_le _ NaN = False"
| "js_le NInf _ = True"
| "js_le _ PInf = True"
| "js_le (Fin a) (Fin b) = (a \<le> b)"
| "js_le _ _ = False"

definition Math_min :: "jsnum \<Rightarrow> jsnum \<Rightarrow> jsnum" where
  "Math_min a b = (if a = NaN \<or> b = NaN then NaN else if js_le a b then a else b)"

definition Math_max :: "jsnum \<Rightarrow> jsnum \<Rightarrow> jsnum" where
  "Math_max a b = (if a = NaN \<or> b = NaN then NaN else if js_le a b then b else a)"

definition isNaN :: "jsnum \<Rightarrow> bool" where
  "isNaN x = (x = NaN)"

fun isFinite :: "jsnum \<Rightarrow> bool" where
  "isFinite (Fin _) = True"
| "isFinite _ = False"

fun number_of :: "jsnum \<Rightarrow> real" where
  "number_of (Fin r) = r"
| "number_of _ = 0"

section \<open>Errors\<close>

text \<open>
  Everything the code throws: \<open>EOFError\<close> (bytesRequired, bytesAvailable),
  \<open>UnexpectedDataError\<close> (expected, actual), the \<open>Error\<close> of the two bit readers for
  \<open>n > 32\<close>, the two thrown strings (missing terminator, unsupported group size), and the
  \<open>RangeError\<close> of the typed-array constructors and of \<open>DataView\<close>.
\<close>

datatype error =
    EOFError int real
  | UnexpectedDataError "int list" "byte list"
  | Error_readBitsIntBe int
  | Error_readBitsIntLe int
  | Thrown_no_terminator int
  | Thrown_rotate_group int
  | RangeError

section \<open>The stream\<close>

text \<open>
  The fields of class \<open>KaitaiStream\<close>. \<open>buffer\<close> is the whole ArrayBuffer, \<open>byteOffset\<close>
  and \<open>byteLength\<close> are \<open>_byteOffset\<close> and \<open>_byteLength\<close>. \<open>bits\<close> is only ever assigned
  0 or the result of a 32-bit operator, so it is a 32-bit word, read as signed.
\<close>

record stream =
  buffer :: "byte list"
  byteOffset :: nat
  byteLength :: nat
  pos :: real
  bits :: int32
  bitsLeft :: int

text \<open>
  A throw leaves the object as it was mutated so far, so every operation returns the
  stream together with either the error or the value.
\<close>

type_synonym 'a outcome = "(error + 'a) \<times> stream"

text \<open>
  \<open>new KaitaiStream(arrayBuffer, byteOffset)\<close> on an ArrayBuffer, for a \<open>byteOffset\<close>
  within it (for a larger one the constructor of \<open>DataView\<close> throws).
\<close>

definition KaitaiStream :: "byte list \<Rightarrow> nat \<Rightarrow> stream" where
  "KaitaiStream arrayBuffer off =
     \<lparr>buffer = arrayBuffer, byteOffset = off, byteLength = length arrayBuffer,
      pos = 0, bits = 0, bitsLeft = 0\<rparr>"

definition stream_size :: "stream \<Rightarrow> int" where
  "stream_size s = int (byteLength s) - int (byteOffset s)"

definition isEof :: "stream \<Rightarrow> bool" where
  "isEof s = (pos s \<ge> of_int (stream_size s) \<and> bitsLeft s = 0)"

definition seek :: "jsnum \<Rightarrow> stream \<Rightarrow> stream" where
  "seek p s =
     (let npos = Math_max (Fin 0) (Math_min (Fin (of_int (stream_size s))) p)
      in s\<lparr>pos := (if isNaN npos \<or> \<not> isFinite npos then 0 else number_of npos)\<rparr>)"

definition alignToByte :: "stream \<Rightarrow> stream" where
  "alignToByte s = s\<lparr>bits := 0, bitsLeft := 0\<rparr>"

text \<open>
  \<open>ensureBytesLeft\<close>: the sum \<open>pos + length\<close> and the difference \<open>size - pos\<close> are the
  exact ones. At a whole position (\<open>whole_position\<close> below) they are what the code
  computes in doubles; at a position with a fraction the code's rounded sum can compare
  differently with the size.
\<close>

definition ensureBytesLeft :: "int \<Rightarrow> stream \<Rightarrow> unit outcome" where
  "ensureBytesLeft len s =
     (if pos s + of_int len > of_int (stream_size s)
      then (Inl (EOFError len (of_int (stream_size s) - pos s)), s)
      else (Inr (), s))"

subsection \<open>Typed arrays\<close>

text \<open>
  ToIndex truncates towards zero and throws RangeError below zero.
  \<open>new Uint8Array(buffer, off, len)\<close> throws RangeError unless the range lies in the
  buffer; without \<open>len\<close> the array runs to the end of the buffer.
\<close>

definition ToIndex :: "real \<Rightarrow> nat option" where
  "ToIndex r = (let i = js_trunc r in if i < 0 then None else Some (nat i))"

definition Uint8Array :: "byte list \<Rightarrow> real \<Rightarrow> int \<Rightarrow> error + byte list" where
  "Uint8Array buf off len =
     (case ToIndex off of
        None \<Rightarrow> Inl RangeError
      | Some i \<Rightarrow>
          if len < 0 \<or> int i + len > int (length buf) then Inl RangeError
          else Inr (take (nat len) (drop i buf)))"

definition Uint8Array_rest :: "byte list \<Rightarrow> real \<Rightarrow> error + byte list" where
  "Uint8Array_rest buf off =
     (case ToIndex off of
        None \<Rightarrow> Inl RangeError
      | Some i \<Rightarrow> if i > length buf then Inl RangeError else Inr (drop i buf))"

text \<open>
  \<open>_dataView\<close> is \<open>new DataView(_buffer, _byteOffset)\<close>: it starts at \<open>byteOffset\<close> and
  runs to the end of the buffer. A read of \<open>w\<close> bytes at an index throws RangeError
  unless it lies in the view.
\<close>

definition DataView_bytes :: "stream \<Rightarrow> real \<Rightarrow> nat \<Rightarrow> error + byte list" where
  "DataView_bytes s idx w =
     (case ToIndex idx of
        None \<Rightarrow> Inl RangeError
      | Some i \<Rightarrow>
          if byteOffset s + i + w > length (buffer s) then Inl RangeError
          else Inr (take w (drop (byteOffset s + i) (buffer s))))"

definition uint_be :: "byte list \<Rightarrow> int" where
  "uint_be bs = foldl (\<lambda>acc b. 256 * acc + uint b) 0 bs"

definition uint_le :: "byte list \<Rightarrow> int" where
  "uint_le bs = foldr (\<lambda>b acc. uint b + 256 * acc) bs 0"

subsection \<open>Byte arrays\<close>

text \<open>
  \<open>mapUint8Array\<close>: \<open>length |= 0\<close> is ToInt32. The offset \<open>byteOffset + pos\<close> and the new
  position \<open>pos + length\<close> are the exact sums, as in \<open>ensureBytesLeft\<close>: the code's at a
  whole position.
\<close>

definition mapUint8Array :: "int \<Rightarrow> stream \<Rightarrow> (byte list) outcome" where
  "mapUint8Array len0 s =
     (let len = sint (ToInt32 len0) in
      case ensureBytesLeft len s of
        (Inl e, s1) \<Rightarrow> (Inl e, s1)
      | (Inr _, s1) \<Rightarrow>
          (case Uint8Array (buffer s1) (real (byteOffset s1) + pos s1) len of
             Inl e \<Rightarrow> (Inl e, s1)
           | Inr arr \<Rightarrow> (Inr arr, s1\<lparr>pos := pos s1 + of_int len\<rparr>)))"

definition readBytes :: "int \<Rightarrow> stream \<Rightarrow> (byte list) outcome" where
  "readBytes len s = mapUint8Array len s"

definition readBytesFull :: "stream \<Rightarrow> (byte list) outcome" where
  "readBytesFull s = mapUint8Array (js_trunc (of_int (stream_size s) - pos s)) s"

subsection \<open>Integers and floats of fixed width\<close>

text \<open>
  Every reader of a fixed width \<open>w\<close> has the same body:
  \<open>this.ensureBytesLeft(w); const v = this._dataView.getX(this.pos [, true]); this.pos += w;
  return v;\<close>. \<open>read_fixed\<close> is that body, with the decoding of the \<open>w\<close> bytes as a
  parameter. Signed integers are two's complement. A float is returned by \<open>DataView\<close>
  as the IEEE 754 value of its bytes; here it is kept as those bytes, most significant
  first.
\<close>

definition read_fixed :: "nat \<Rightarrow> (byte list \<Rightarrow> 'a) \<Rightarrow> stream \<Rightarrow> 'a outcome" where
  "read_fixed w decode s =
     (case ensureBytesLeft (int w) s of
        (Inl e, s1) \<Rightarrow> (Inl e, s1)
      | (Inr _, s1) \<Rightarrow>
          (case DataView_bytes s1 (pos s1) w of
             Inl e \<Rightarrow> (Inl e, s1)
           | Inr bs \<Rightarrow> (Inr (decode bs), s1\<lparr>pos := pos s1 + real w\<rparr>)))"

definition twos_complement :: "nat \<Rightarrow> int \<Rightarrow> int" where
  "twos_complement w v = (if v < 2 ^ (8 * w - 1) then v else v - 2 ^ (8 * w))"

definition readS1 :: "stream \<Rightarrow> int outcome" where
  "readS1 s = read_fixed 1 (\<lambda>bs. twos_complement 1 (uint_be bs)) s"

definition readS2be :: "stream \<Rightarrow> int outcome" where
  "readS2be s = read_fixed 2 (\<lambda>bs. twos_complement 2 (uint_be bs)) s"

definition readS4be :: "stream \<Rightarrow> int outcome" where
  "readS4be s = read_fixed 4 (\<lambda>bs. twos_complement 4 (uint_be bs)) s"

definition readS2le :: "stream \<Rightarrow> int outcome" where
  "readS2le s = read_fixed 2 (\<lambda>bs. twos_complement 2 (uint_le bs)) s"

definition readS4le :: "stream \<Rightarrow> int outcome" where
  "readS4le s = read_fixed 4 (\<lambda>bs. twos_complement 4 (uint_le bs)) s"

definition readU1 :: "stream \<Rightarrow> int outcome" where
  "readU1 s = read_fixed 1 uint_be s"

definition readU2be :: "stream \<Rightarrow> int outcome" where
  "readU2be s = read_fixed 2 uint_be s"

definition readU4be :: "stream \<Rightarrow> int outcome" where
  "readU4be s = read_fixed 4 uint_be s"

definition readU2le :: "stream \<Rightarrow> int outcome" where
  "readU2le s = read_fixed 2 uint_le s"

definition readU4le :: "stream \<Rightarrow> int outcome" where
  "readU4le s = read_fixed 4 uint_le s"

definition readF4be :: "stream \<Rightarrow> (byte list) outcome" where
  "readF4be s = read_fixed 4 (\<lambda>bs. bs) s"

definition readF8be :: "stream \<Rightarrow> (byte list) outcome" where
  "readF8be s = read_fixed 8 (\<lambda>bs. bs) s"

definition readF4le :: "stream \<Rightarrow> (byte list) outcome" where
  "readF4le s = read_fixed 4 rev s"

definition readF8le :: "stream \<Rightarrow> (byte list) outcome" where
  "readF8le s = read_fixed 8 rev s"

subsection \<open>Integers of 64 bits\<close>

text \<open>
  \<open>readU8be\<close> and \<open>readU8le\<close>: \<open>ensureBytesLeft(8)\<close>, two reads of 32 bits, and
  \<open>0x100000000 * high + low\<close>, product and sum each rounded to a double.
\<close>

definition readU8be :: "stream \<Rightarrow> int outcome" where
  "readU8be s =
     (case ensureBytesLeft 8 s of
        (Inl e, s1) \<Rightarrow> (Inl e, s1)
      | (Inr _, s1) \<Rightarrow>
          (case readU4be s1 of
             (Inl e, s2) \<Rightarrow> (Inl e, s2)
           | (Inr v1, s2) \<Rightarrow>
               (case readU4be s2 of
                  (Inl e, s3) \<Rightarrow> (Inl e, s3)
                | (Inr v2, s3) \<Rightarrow> (Inr (to_double (to_double (0x100000000 * v1) + v2)), s3))))"

definition readU8le :: "stream \<Rightarrow> int outcome" where
  "readU8le s =
     (case ensureBytesLeft 8 s of
        (Inl e, s1) \<Rightarrow> (Inl e, s1)
      | (Inr _, s1) \<Rightarrow>
          (case readU4le s1 of
             (Inl e, s2) \<Rightarrow> (Inl e, s2)
           | (Inr v1, s2) \<Rightarrow>
               (case readU4le s2 of
                  (Inl e, s3) \<Rightarrow> (Inl e, s3)
                | (Inr v2, s3) \<Rightarrow> (Inr (to_double (to_double (0x100000000 * v2) + v1)), s3))))"

text \<open>
  The value computed after the two halves are read: \<open>hi\<close> is \<open>v1\<close> in \<open>readS8be\<close> and
  \<open>v2\<close> in \<open>readS8le\<close>. The product, the sum and the difference are each rounded to a
  double; the negation is exact.
\<close>

definition s8_value :: "int \<Rightarrow> int \<Rightarrow> int" where
  "s8_value hi lo =
     (if js_and hi 0x80000000 \<noteq> 0
      then to_double (- to_double (to_double (0x100000000 * js_xor hi 0xffffffff)
                                  + js_xor lo 0xffffffff) - 1)
      else to_double (to_double (0x100000000 * hi) + lo))"

definition readS8be :: "stream \<Rightarrow> int outcome" where
  "readS8be s =
     (case ensureBytesLeft 8 s of
        (Inl e, s1) \<Rightarrow> (Inl e, s1)
      | (Inr _, s1) \<Rightarrow>
          (case readU4be s1 of
             (Inl e, s2) \<Rightarrow> (Inl e, s2)
           | (Inr v1, s2) \<Rightarrow>
               (case readU4be s2 of
                  (Inl e, s3) \<Rightarrow> (Inl e, s3)
                | (Inr v2, s3) \<Rightarrow> (Inr (s8_value v1 v2), s3))))"

definition readS8le :: "stream \<Rightarrow> int outcome" where
  "readS8le s =
     (case ensureBytesLeft 8 s of
        (Inl e, s1) \<Rightarrow> (Inl e, s1)
      | (Inr _, s1) \<Rightarrow>
          (case readU4le s1 of
             (Inl e, s2) \<Rightarrow> (Inl e, s2)
           | (Inr v1, s2) \<Rightarrow>
               (case readU4le s2 of
                  (Inl e, s3) \<Rightarrow> (Inl e, s3)
                | (Inr v2, s3) \<Rightarrow> (Inr (s8_value v2 v1), s3))))"

subsection \<open>Unaligned bit values\<close>

text \<open>
  The loop \<open>for (let i = 0; i < bytesNeeded; i++)\<close> of each bit reader, from counter \<open>i\<close>.
\<close>

function fill_be :: "byte list \<Rightarrow> int \<Rightarrow> int \<Rightarrow> stream \<Rightarrow> stream" where
  "fill_be buf bytesNeeded i s =
     (if i < bytesNeeded
      then fill_be buf bytesNeeded (i + 1)
             (s\<lparr>bits := ToInt32 (js_or (js_shl (sint (bits s)) 8) (num_or_0 (u8_get buf (nat i)))),
                bitsLeft := bitsLeft s + 8\<rparr>)
      else s)"
  by pat_completeness auto
termination
  by (relation "measure (\<lambda>(buf, bytesNeeded, i, s). nat (bytesNeeded - i))") auto

function fill_le :: "byte list \<Rightarrow> int \<Rightarrow> int \<Rightarrow> stream \<Rightarrow> stream" where
  "fill_le buf bytesNeeded i s =
     (if i < bytesNeeded
      then fill_le buf bytesNeeded (i + 1)
             (s\<lparr>bits := ToInt32 (js_or (sint (bits s))
                                  (js_shl (num_or_0 (u8_get buf (nat i))) (bitsLeft s))),
                bitsLeft := bitsLeft s + 8\<rparr>)
      else s)"
  by pat_completeness auto
termination
  by (relation "measure (\<lambda>(buf, bytesNeeded, i, s). nat (bytesNeeded - i))") auto

text \<open>The block \<open>if (bitsNeeded > 0) { ... }\<close>: the state in which the result is taken.\<close>

definition refill_be :: "int \<Rightarrow> stream \<Rightarrow> unit outcome" where
  "refill_be n s =
     (let bitsNeeded = n - bitsLeft s in
      if bitsNeeded > 0
      then (let bytesNeeded = \<lceil>real_of_int bitsNeeded / 8\<rceil> in
            case readBytes bytesNeeded s of
              (Inl e, s1) \<Rightarrow> (Inl e, s1)
            | (Inr buf, s1) \<Rightarrow> (Inr (), fill_be buf bytesNeeded 0 s1))
      else (Inr (), s))"

definition refill_le :: "int \<Rightarrow> stream \<Rightarrow> unit outcome" where
  "refill_le n s =
     (let bitsNeeded = n - bitsLeft s in
      if bitsNeeded > 0
      then (let bytesNeeded = \<lceil>real_of_int bitsNeeded / 8\<rceil> in
            case readBytes bytesNeeded s of
              (Inl e, s1) \<Rightarrow> (Inl e, s1)
            | (Inr buf, s1) \<Rightarrow> (Inr (), fill_le buf bytesNeeded 0 s1))
      else (Inr (), s))"

text \<open>The rest of each reader, from \<open>let mask = ...\<close> to \<open>return res\<close>.\<close>

definition take_be :: "int \<Rightarrow> stream \<Rightarrow> int \<times> stream" where
  "take_be n s =
     (let mask = (if n = 32 then 0xffffffff else js_shl 1 n - 1);
          shiftBits = bitsLeft s - n;
          res = js_and (js_shr (sint (bits s)) shiftBits) mask;
          left = bitsLeft s - n;
          mask2 = js_shl 1 left - 1
      in (res, s\<lparr>bitsLeft := left, bits := ToInt32 (js_and (sint (bits s)) mask2)\<rparr>))"

definition take_le :: "int \<Rightarrow> stream \<Rightarrow> int \<times> stream" where
  "take_le n s =
     (let mask = (if n = 32 then 0xffffffff else js_shl 1 n - 1);
          res = js_and (sint (bits s)) mask
      in (res, s\<lparr>bits := ToInt32 (js_sar (sint (bits s)) n), bitsLeft := bitsLeft s - n\<rparr>))"

definition readBitsIntBe :: "int \<Rightarrow> stream \<Rightarrow> int outcome" where
  "readBitsIntBe n s =
     (if n > 32 then (Inl (Error_readBitsIntBe n), s)
      else case refill_be n s of
             (Inl e, s1) \<Rightarrow> (Inl e, s1)
           | (Inr _, s1) \<Rightarrow> (let (res, s2) = take_be n s1 in (Inr res, s2)))"

definition readBitsIntLe :: "int \<Rightarrow> stream \<Rightarrow> int outcome" where
  "readBitsIntLe n s =
     (if n > 32 then (Inl (Error_readBitsIntLe n), s)
      else case refill_le n s of
             (Inl e, s1) \<Rightarrow> (Inl e, s1)
           | (Inr _, s1) \<Rightarrow> (let (res, s2) = take_le n s1 in (Inr res, s2)))"

subsection \<open>Terminated and fixed byte runs\<close>

text \<open>The scan \<open>for (i = 0; i < blen && u8[i] !== terminator; i++);\<close>, from counter \<open>i\<close>.\<close>

function scan_term :: "byte list \<Rightarrow> real \<Rightarrow> int \<Rightarrow> nat \<Rightarrow> nat" where
  "scan_term u8 blen terminator i =
     (if real i < blen \<and> u8_get u8 i \<noteq> Some terminator
      then scan_term u8 blen terminator (i + 1)
      else i)"
  by pat_completeness auto
termination
  by (relation "measure (\<lambda>(u8, blen, terminator, i). nat \<lceil>blen\<rceil> - i)") (auto, linarith)

definition readBytesTerm :: "int \<Rightarrow> bool \<Rightarrow> bool \<Rightarrow> bool \<Rightarrow> stream \<Rightarrow> (byte list) outcome" where
  "readBytesTerm terminator include consume eosError s =
     (let blen = of_int (stream_size s) - pos s in
      case Uint8Array_rest (buffer s) (real (byteOffset s) + pos s) of
        Inl e \<Rightarrow> (Inl e, s)
      | Inr u8 \<Rightarrow>
          (let i = scan_term u8 blen terminator 0 in
           if real i = blen
           then (if eosError then (Inl (Thrown_no_terminator terminator), s)
                 else mapUint8Array (int i) s)
           else (case (if include then mapUint8Array (int i + 1) s else mapUint8Array (int i) s) of
                   (Inl e, s1) \<Rightarrow> (Inl e, s1)
                 | (Inr arr, s1) \<Rightarrow>
                     (Inr arr, if consume then s1\<lparr>pos := pos s1 + 1\<rparr> else s1))))"

text \<open>
  The comparison loop of \<open>ensureFixedContents\<close>, from counter \<open>i\<close>: true when it throws.
\<close>

function differs_from :: "byte list \<Rightarrow> int list \<Rightarrow> nat \<Rightarrow> bool" where
  "differs_from actual expected i =
     (if i < length actual
      then (if u8_get actual i \<noteq> num_get expected i then True
            else differs_from actual expected (i + 1))
      else False)"
  by pat_completeness auto
termination
  by (relation "measure (\<lambda>(actual, expected, i). length actual - i)") auto

definition ensureFixedContents :: "int list \<Rightarrow> stream \<Rightarrow> (byte list) outcome" where
  "ensureFixedContents expected s =
     (case readBytes (int (length expected)) s of
        (Inl e, s1) \<Rightarrow> (Inl e, s1)
      | (Inr actual, s1) \<Rightarrow>
          if length actual \<noteq> length expected
          then (Inl (UnexpectedDataError expected actual), s1)
          else if differs_from actual expected 0
          then (Inl (UnexpectedDataError expected actual), s1)
          else (Inr actual, s1))"

section \<open>Byte array processing\<close>

text \<open>The assignment \<open>r[i] = ((data[i] << amount) & 0xff) | (data[i] >> antiAmount)\<close>.\<close>

definition rotate_byte :: "int \<Rightarrow> int \<Rightarrow> byte \<Rightarrow> byte" where
  "rotate_byte amount antiAmount b =
     ToUint8 (js_or (js_and (js_shl (uint b) amount) 0xff) (js_sar (uint b) antiAmount))"

definition processRotateLeft :: "byte list \<Rightarrow> int \<Rightarrow> int \<Rightarrow> error + byte list" where
  "processRotateLeft data amount groupSize =
     (if groupSize \<noteq> 1 then Inl (Thrown_rotate_group groupSize)
      else (let mask = groupSize * 8 - 1;
                antiAmount = js_and (- amount) mask
            in Inr (map (rotate_byte amount antiAmount) data)))"

section \<open>What the description of the runtime says, where it is compared with the code\<close>

text \<open>
  The value \<open>read_s8\<close> is described to return when the sign bit of the more significant
  half is set: \<open>-((high ^ 0xFFFFFFFF) * 2^32 + (low ^ 0xFFFFFFFF)) - 1\<close>, with \<open>^\<close> the
  exclusive or of unsigned 32-bit values.
\<close>

definition described_s8_negative :: "int \<Rightarrow> int \<Rightarrow> int" where
  "described_s8_negative high low =
     - (uint (ToInt32 high XOR 0xFFFFFFFF) * 2 ^ 32 + uint (ToInt32 low XOR 0xFFFFFFFF)) - 1"

declare double_exp.simps [simp del]

declare fill_be.simps [simp del] fill_le.simps [simp del] scan_term.simps [simp del]
  differs_from.simps [simp del]

section \<open>The reader operations as one interface\<close>

text \<open>
  The operations of the stream that can throw, with their arguments, and what they
  return. \<open>listed_failure\<close> holds for the failures named in the property on failed
  reads: the EOFError of \<open>ensureBytesLeft\<close>, the Error for \<open>n > 32\<close> of the bit readers,
  and the thrown string of \<open>readBytesTerm\<close> when the terminator is missing.
\<close>

datatype reader_op =
    EnsureBytesLeft int
  | ReadBytes int
  | ReadBytesFull
  | ReadBytesTerm int bool bool bool
  | EnsureFixedContents "int list"
  | ReadS1 | ReadS2be | ReadS4be | ReadS8be | ReadS2le | ReadS4le | ReadS8le
  | ReadU1 | ReadU2be | ReadU4be | ReadU8be | ReadU2le | ReadU4le | ReadU8le
  | ReadF4be | ReadF8be | ReadF4le | ReadF8le
  | ReadBitsIntBe int
  | ReadBitsIntLe int

datatype result = Nothing | Number int | Float "byte list" | Bytes "byte list"

definition returning :: "('a \<Rightarrow> result) \<Rightarrow> 'a outcome \<Rightarrow> result outcome" where
  "returning f r = (case r of (Inl e, s) \<Rightarrow> (Inl e, s) | (Inr v, s) \<Rightarrow> (Inr (f v), s))"

fun run :: "reader_op \<Rightarrow> stream \<Rightarrow> result outcome" where
  "run (EnsureBytesLeft n) s = returning (\<lambda>_. Nothing) (ensureBytesLeft n s)"
| "run (ReadBytes n) s = returning Bytes (readBytes n s)"
| "run ReadBytesFull s = returning Bytes (readBytesFull s)"
| "run (ReadBytesTerm t i c e) s = returning Bytes (readBytesTerm t i c e s)"
| "run (EnsureFixedContents xs) s = returning Bytes (ensureFixedContents xs s)"
| "run ReadS1 s = returning Number (readS1 s)"
| "run ReadS2be s = returning Number (readS2be s)"
| "run ReadS4be s = returning Number (readS4be s)"
| "run ReadS8be s = returning Number (readS8be s)"
| "run ReadS2le s = returning Number (readS2le s)"
| "run ReadS4le s = returning Number (readS4le s)"
| "run ReadS8le s = returning Number (readS8le s)"
| "run ReadU1 s = returning Number (readU1 s)"
| "run ReadU2be s = returning Number (readU2be s)"
| "run ReadU4be s = returning Number (readU4be s)"
| "run ReadU8be s = returning Number (readU8be s)"
| "run ReadU2le s = returning Number (readU2le s)"
| "run ReadU4le s = returning Number (readU4le s)"
| "run ReadU8le s = returning Number (readU8le s)"
| "run ReadF4be s = returning Float (readF4be s)"
| "run ReadF8be s = returning Float (readF8be s)"
| "run ReadF4le s = returning Float (readF4le s)"
| "run ReadF8le s = returning Float (readF8le s)"
| "run (ReadBitsIntBe n) s = returning Number (readBitsIntBe n s)"
| "run (ReadBitsIntLe n) s = returning Number (readBitsIntLe n s)"

fun listed_failure :: "error \<Rightarrow> bool" where
  "listed_failure (EOFError _ _) = True"
| "listed_failure (Error_readBitsIntBe _) = True"
| "listed_failure (Error_readBitsIntLe _) = True"
| "listed_failure (Thrown_no_terminator _) = True"
| "listed_failure _ = False"

section \<open>Stream states\<close>

text \<open>
  \<open>whole_position\<close>: the position is a whole number, and position and size are below
  2^53 (an ArrayBuffer is never longer). There every sum and difference of the position,
  the size, the byte offset and a whole length is a whole number that the code computes
  without rounding, or is so large that rounding does not change how it compares with
  the size.
\<close>

definition whole_position :: "stream \<Rightarrow> bool" where
  "whole_position s =
     (pos s = of_int \<lfloor>pos s\<rfloor> \<and> 0 \<le> pos s \<and> pos s < 2 ^ 53
      \<and> byteOffset s \<le> byteLength s \<and> byteLength s < 2 ^ 53)"

text \<open>
  What the stream holds between calls when the bit readers of one bit order are used
  with \<open>n \<ge> 0\<close>: a fresh stream and a stream after \<open>alignToByte\<close> are in both states,
  \<open>seek\<close> and the byte readers keep them, \<open>readBitsIntBe\<close> keeps the first and
  \<open>readBitsIntLe\<close> the second (lemmas \<open>held_bits_fresh\<close>, \<open>held_bits_alignToByte\<close>,
  \<open>held_bits_seek\<close>, \<open>held_bits_be_run\<close>, \<open>held_bits_le_run\<close>).
\<close>

definition held_bits_be :: "stream \<Rightarrow> bool" where
  "held_bits_be s = (0 \<le> bitsLeft s \<and> bitsLeft s \<le> 7 \<and> uint (bits s) < 2 ^ nat (bitsLeft s))"

definition held_bits_le :: "stream \<Rightarrow> bool" where
  "held_bits_le s = (0 \<le> bitsLeft s \<and> bitsLeft s \<le> 7)"

section \<open>Evaluation and helper lemmas\<close>

lemmas js_defs = ToInt32_def js_and_def js_or_def js_xor_def js_shl_def js_sar_def js_shr_def
  ToUint8_def u8_get_def num_get_def num_or_0_def js_trunc_def ToIndex_def

lemmas stream_defs = KaitaiStream_def stream_size_def ensureBytesLeft_def Uint8Array_def
  Uint8Array_rest_def DataView_bytes_def uint_be_def uint_le_def mapUint8Array_def readBytes_def

lemma ToInt32_sint [simp]: "ToInt32 (sint w) = w"
  by (simp add: ToInt32_def)

lemma ToInt32_uint_byte: "ToInt32 (uint (b :: byte)) = ucast b"
  by (simp only: ToInt32_def ucast_eq)

lemma ToUint8_sint: "ToUint8 (sint (w :: int32)) = ucast w"
  unfolding ToUint8_def
  by (rule bit_word_eqI) (auto simp add: bit_simps)

subsection \<open>One byte of \<open>processRotateLeft\<close>\<close>

lemma anti_amount:
  assumes "0 \<le> a" "a \<le> 7"
  shows "js_and (- a) 7 = (- a) mod 8" and "nat ((- a) mod 8) = (8 - nat a) mod 8"
proof -
  from assms consider "a = 0" | "a = 1" | "a = 2" | "a = 3" | "a = 4" | "a = 5" | "a = 6" | "a = 7"
    by arith
  then show "js_and (- a) 7 = (- a) mod 8"
    by cases (simp_all add: js_and_def ToInt32_def)
  from assms show "nat ((- a) mod 8) = (8 - nat a) mod 8"
    by (cases "a = 0") (simp_all add: zmod_zminus1_eq_if nat_diff_distrib)
qed

lemma rotate_byte_word:
  "rotate_byte a m b =
     ucast ((push_bit (nat (a mod 32)) (ucast b :: int32) AND 0xff) OR
            signed_drop_bit (nat (m mod 32)) (ucast b :: int32))"
  by (simp add: rotate_byte_def js_and_def js_or_def js_shl_def js_sar_def
        ToInt32_uint_byte ToUint8_sint)
     (simp add: ToInt32_def)

lemma mask_ff: "(255 :: int32) = mask 8"
  by (simp add: mask_eq_exp_minus_1)

lemma rot_bits:
  fixes b :: byte and k :: nat
  assumes k: "k < 8"
  shows "ucast ((push_bit k (ucast b :: int32) AND mask 8) OR
                signed_drop_bit ((8 - k) mod 8) (ucast b :: int32)) = word_rotl k b"
proof (rule bit_word_eqI)
  fix n assume "n < LENGTH(8)"
  then have n: "n < 8" by simp
  let ?m = "(8 - k) mod 8"
  let ?l = "ucast ((push_bit k (ucast b :: int32) AND mask 8) OR
                signed_drop_bit ?m (ucast b :: int32)) :: byte"
  have hi: "\<not> bit b j" if "8 \<le> j" for j
    using that bit_imp_le_length [of b j] by auto
  have A: "bit (push_bit k (ucast b :: int32) AND mask 8) n \<longleftrightarrow> k \<le> n \<and> bit b (n - k)"
    using k n by (auto simp add: bit_simps)
  have B: "bit (signed_drop_bit ?m (ucast b :: int32)) n \<longleftrightarrow> bit b (?m + n)"
    using k n hi by (auto simp add: bit_simps)
  have C: "bit (word_rotl k b) n \<longleftrightarrow> bit b ((n + (8 - k)) mod 8)"
    using k n by (simp add: bit_simps)
  have L: "bit ?l n \<longleftrightarrow> (k \<le> n \<and> bit b (n - k)) \<or> bit b (?m + n)"
    using n A B by (simp add: bit_simps)
  show "bit ?l n = bit (word_rotl k b) n"
  proof (cases "k = 0")
    case True
    then show ?thesis using n L C by simp
  next
    case False
    then have m: "?m = 8 - k" using k by simp
    show ?thesis
    proof (cases "k \<le> n")
      case True
      then have "(n + (8 - k)) mod 8 = n - k" "8 \<le> 8 - k + n"
        using k n by (simp_all add: mod_if)
      then show ?thesis using L C m True hi by simp
    next
      case False
      then have "(n + (8 - k)) mod 8 = 8 - k + n"
        using k n by (auto simp add: mod_if)
      then show ?thesis using L C m False by simp
    qed
  qed
qed

lemma rotate_byte_rotl:
  assumes "0 \<le> a" "a \<le> 7"
  shows "rotate_byte a (js_and (- a) 7) b = word_rotl (nat a) b"
proof -
  have 1: "nat (a mod 32) = nat a" using assms by simp
  have 2: "nat (js_and (- a) 7 mod 32) = (8 - nat a) mod 8"
    using assms anti_amount [of a] by simp
  show ?thesis
    using assms rot_bits [of "nat a" b] by (simp add: rotate_byte_word 1 2 mask_ff)
qed

lemma rotl_back:
  fixes b :: byte
  assumes "k < 8"
  shows "word_rotl ((8 - k) mod 8) (word_rotl k b) = b"
proof (cases "k = 0")
  case True
  have "word_rotl 0 b = b" by (rule bit_word_eqI) (simp add: bit_simps)
  with True show ?thesis by simp
next
  case False
  with assms have "word_rotl ((8 - k) mod 8) (word_rotl k b) = word_rotr k (word_rotl k b)"
    by (simp add: word_rotl_eq_word_rotr [of "8 - k"])
  then show ?thesis by simp
qed

lemma processRotateLeft_rotl:
  assumes "0 \<le> a" "a \<le> 7"
  shows "processRotateLeft x a 1 = Inr (map (word_rotl (nat a)) x)"
  using assms by (simp add: processRotateLeft_def rotate_byte_rotl)

subsection \<open>Failing operations\<close>

lemma ensureBytesLeft_state: "ensureBytesLeft n s = (r, s') \<Longrightarrow> s' = s"
  by (auto simp add: ensureBytesLeft_def split: if_splits)

lemma mapUint8Array_fail: "mapUint8Array n s = (Inl e, s') \<Longrightarrow> s' = s"
  by (auto simp add: mapUint8Array_def ensureBytesLeft_def Let_def split: if_splits sum.splits)

lemma DataView_bytes_error: "DataView_bytes s i w = Inl e \<Longrightarrow> e = RangeError"
  by (auto simp add: DataView_bytes_def split: option.splits if_splits)

lemma read_fixed_cases:
  assumes "read_fixed w decode s = (r, s')"
  shows "(s' = s \<and> r = Inl (EOFError (int w) (of_int (stream_size s) - pos s))
            \<and> pos s + real w > of_int (stream_size s))
         \<or> (s' = s \<and> r = Inl RangeError \<and> pos s + real w \<le> of_int (stream_size s))
         \<or> (s' = s\<lparr>pos := pos s + real w\<rparr> \<and> (\<exists>v. r = Inr v)
            \<and> pos s + real w \<le> of_int (stream_size s))"
  using assms
  by (auto simp add: read_fixed_def ensureBytesLeft_def split: if_splits sum.splits
        dest: DataView_bytes_error)

lemma read_fixed_fail:
  "read_fixed w decode s = (Inl e, s') \<Longrightarrow> s' = s"
  by (auto dest: read_fixed_cases)

text \<open>
  The readers of 64 bits: after \<open>ensureBytesLeft(8)\<close> has passed, neither of the two
  reads of 32 bits can throw EOFError.
\<close>

lemma two_halves_fail:
  assumes r: "(case ensureBytesLeft 8 s of
                 (Inl e, s1) \<Rightarrow> (Inl e, s1)
               | (Inr _, s1) \<Rightarrow>
                   (case read_fixed 4 d s1 of
                      (Inl e, s2) \<Rightarrow> (Inl e, s2)
                    | (Inr v1, s2) \<Rightarrow>
                        (case read_fixed 4 d s2 of
                           (Inl e, s3) \<Rightarrow> (Inl e, s3)
                         | (Inr v2, s3) \<Rightarrow> (Inr (f v1 v2), s3)))) = (Inl e, s')"
    and e: "listed_failure e"
  shows "s' = s"
proof (cases "pos s + 8 > of_int (stream_size s)")
  case True
  with r show ?thesis by (simp add: ensureBytesLeft_def)
next
  case False
  obtain r1 s1 where 1: "read_fixed 4 d s = (r1, s1)" by (cases "read_fixed 4 d s")
  obtain r2 s2 where 2: "read_fixed 4 d s1 = (r2, s2)" by (cases "read_fixed 4 d s1")
  have sz: "stream_size (s\<lparr>pos := pos s + 4\<rparr>) = stream_size s" by (simp add: stream_size_def)
  from False r e 1 2 read_fixed_cases [OF 1] read_fixed_cases [OF 2] sz
  show ?thesis
    by (auto simp add: ensureBytesLeft_def split: sum.splits)
qed

lemma read8_fail:
  assumes "listed_failure e"
  shows "readS8be s = (Inl e, s') \<Longrightarrow> s' = s"
    and "readS8le s = (Inl e, s') \<Longrightarrow> s' = s"
    and "readU8be s = (Inl e, s') \<Longrightarrow> s' = s"
    and "readU8le s = (Inl e, s') \<Longrightarrow> s' = s"
  unfolding readS8be_def readS8le_def readU8be_def readU8le_def readU4be_def readU4le_def
  by (erule two_halves_fail, rule assms)+

lemmas fixed_defs = readS1_def readS2be_def readS4be_def readS2le_def readS4le_def
  readU1_def readU2be_def readU4be_def readU2le_def readU4le_def
  readF4be_def readF8be_def readF4le_def readF8le_def

lemma refill_be_fail: "refill_be n s = (Inl e, s') \<Longrightarrow> s' = s"
  by (auto simp add: refill_be_def readBytes_def Let_def split: if_splits sum.splits prod.splits
        dest: mapUint8Array_fail)

lemma refill_le_fail: "refill_le n s = (Inl e, s') \<Longrightarrow> s' = s"
  by (auto simp add: refill_le_def readBytes_def Let_def split: if_splits sum.splits prod.splits
        dest: mapUint8Array_fail)

lemma readBitsIntBe_fail: "readBitsIntBe n s = (Inl e, s') \<Longrightarrow> s' = s"
  by (auto simp add: readBitsIntBe_def Let_def split: if_splits sum.splits prod.splits
        dest: refill_be_fail)

lemma readBitsIntLe_fail: "readBitsIntLe n s = (Inl e, s') \<Longrightarrow> s' = s"
  by (auto simp add: readBitsIntLe_def Let_def split: if_splits sum.splits prod.splits
        dest: refill_le_fail)

lemma readBytesTerm_fail: "readBytesTerm t i c eos s = (Inl e, s') \<Longrightarrow> s' = s"
  by (auto simp add: readBytesTerm_def Let_def split: if_splits sum.splits prod.splits
        dest: mapUint8Array_fail)

lemma ensureFixedContents_fail:
  "ensureFixedContents xs s = (Inl e, s') \<Longrightarrow> listed_failure e \<Longrightarrow> s' = s"
  by (auto simp add: ensureFixedContents_def readBytes_def split: if_splits sum.splits prod.splits
        dest: mapUint8Array_fail)

lemma returning_Inl: "returning f r = (Inl e, s') \<Longrightarrow> r = (Inl e, s')"
  by (auto simp add: returning_def split: prod.splits sum.splits)

subsection \<open>Reading a fixed run\<close>

lemma differs_from_iff:
  "length actual = length expected \<Longrightarrow>
   differs_from actual expected i =
     (\<exists>j. i \<le> j \<and> j < length actual \<and> uint (actual ! j) \<noteq> expected ! j)"
proof (induction actual expected i rule: differs_from.induct)
  case (1 actual expected i)
  show ?case
  proof (cases "i < length actual")
    case False
    then show ?thesis by (simp add: differs_from.simps [of actual expected i])
  next
    case True
    show ?thesis
    proof (cases "uint (actual ! i) = expected ! i")
      case False
      with True 1 show ?thesis
        by (auto simp add: differs_from.simps [of actual expected i] u8_get_def num_get_def)
    next
      case same: True
      have "differs_from actual expected i = differs_from actual expected (i + 1)"
        using True same 1(2) by (simp add: differs_from.simps [of actual expected i] u8_get_def num_get_def)
      also have "\<dots> = (\<exists>j. i + 1 \<le> j \<and> j < length actual \<and> uint (actual ! j) \<noteq> expected ! j)"
        using 1 True same by (simp add: u8_get_def num_get_def)
      also have "\<dots> = (\<exists>j. i \<le> j \<and> j < length actual \<and> uint (actual ! j) \<noteq> expected ! j)"
        using same by (metis Suc_eq_plus1 Suc_leD Suc_le_eq le_neq_implies_less)
      finally show ?thesis .
    qed
  qed
qed

lemma differs_from_0:
  assumes "length actual = length expected"
  shows "differs_from actual expected 0 = (map uint actual \<noteq> expected)"
  using assms by (auto simp add: differs_from_iff list_eq_iff_nth_eq)

lemma ToInt32_small: "0 \<le> n \<Longrightarrow> n < 2 ^ 31 \<Longrightarrow> sint (ToInt32 n) = n"
  by (simp add: ToInt32_def sint_sbintrunc' signed_take_bit_int_eq_self)

lemma ToIndex_nonneg:
  assumes r: "0 \<le> r"
  shows "ToIndex (real k + r) = Some (k + nat \<lfloor>r\<rfloor>)"
proof -
  have f: "0 \<le> \<lfloor>r\<rfloor>" using r by simp
  have "\<lfloor>real k + r\<rfloor> = int k + \<lfloor>r\<rfloor>" by linarith
  then have t: "js_trunc (real k + r) = int k + \<lfloor>r\<rfloor>"
    using r by (simp add: js_trunc_def)
  have "\<not> int k + \<lfloor>r\<rfloor> < 0" using f by linarith
  moreover have "nat (int k + \<lfloor>r\<rfloor>) = k + nat \<lfloor>r\<rfloor>" using f by (simp add: nat_add_distrib)
  ultimately show ?thesis
    unfolding ToIndex_def t Let_def by (simp only: if_False)
qed

lemma mapUint8Array_ok:
  assumes "byteLength s \<le> length (buffer s)" "0 \<le> pos s" "0 \<le> n" "n < 2 ^ 31"
    and "pos s + of_int n \<le> of_int (stream_size s)"
  shows "mapUint8Array n s =
           (Inr (take (nat n) (drop (byteOffset s + nat \<lfloor>pos s\<rfloor>) (buffer s))),
            s\<lparr>pos := pos s + of_int n\<rparr>)"
    and "length (take (nat n) (drop (byteOffset s + nat \<lfloor>pos s\<rfloor>) (buffer s))) = nat n"
proof -
  have "of_int \<lfloor>pos s\<rfloor> \<le> pos s" by simp
  with assms(5) have "real_of_int (\<lfloor>pos s\<rfloor> + n) \<le> real_of_int (stream_size s)" by linarith
  then have "\<lfloor>pos s\<rfloor> + n \<le> stream_size s" by linarith
  moreover have f: "0 \<le> \<lfloor>pos s\<rfloor>" using assms(2) by simp
  ultimately have b: "int (byteOffset s + nat \<lfloor>pos s\<rfloor>) + n \<le> int (length (buffer s))"
    using assms(1) by (simp add: stream_size_def)
  show "mapUint8Array n s =
           (Inr (take (nat n) (drop (byteOffset s + nat \<lfloor>pos s\<rfloor>) (buffer s))),
            s\<lparr>pos := pos s + of_int n\<rparr>)"
    using assms b
    by (simp add: mapUint8Array_def ToInt32_small ensureBytesLeft_def Uint8Array_def ToIndex_nonneg)
  show "length (take (nat n) (drop (byteOffset s + nat \<lfloor>pos s\<rfloor>) (buffer s))) = nat n"
    using assms b f by (simp add: min_def) linarith
qed

subsection \<open>Reading up to a terminator\<close>

text \<open>
  On a stream whose window lies in its buffer, at a whole position \<open>k\<close>, with the first
  terminator byte at offset \<open>i\<close> from \<open>k\<close> inside the stream: the returned run has
  \<open>i\<close> bytes, and one more when \<open>include\<close> is true; the position advances by \<open>i\<close>,
  by one more when \<open>include\<close> is true, and by one more when \<open>consume\<close> is true.
\<close>

lemma scan_term_first:
  assumes "i \<le> n" and "real n < blen" and "u8_get u8 n = Some t"
    and "\<forall>j. i \<le> j \<and> j < n \<longrightarrow> u8_get u8 j \<noteq> Some t"
  shows "scan_term u8 blen t i = n"
  using assms
proof (induction "n - i" arbitrary: i)
  case 0
  then have "i = n" by simp
  with 0 show ?case by (simp add: scan_term.simps [of u8 blen t n])
next
  case (Suc d)
  then have lt: "i < n" by simp
  then have "real i < blen" using Suc.prems(2) by simp
  moreover have "u8_get u8 i \<noteq> Some t" using Suc.prems(4) lt by simp
  ultimately have "scan_term u8 blen t i = scan_term u8 blen t (i + 1)"
    by (simp add: scan_term.simps [of u8 blen t i])
  also have "\<dots> = n"
    using Suc lt by (intro Suc.hyps(1)) auto
  finally show ?case .
qed

lemma readBytesTerm_found:
  assumes wf: "byteLength s \<le> length (buffer s)" and k: "pos s = real k"
    and lt: "int k + int i < stream_size s" and small: "int i + 1 < 2 ^ 31"
    and found: "uint (buffer s ! (byteOffset s + k + i)) = t"
    and first: "\<forall>j<i. uint (buffer s ! (byteOffset s + k + j)) \<noteq> t"
  shows "readBytesTerm t include consume eos s =
           (Inr (take (i + (if include then 1 else 0)) (drop (byteOffset s + k) (buffer s))),
            s\<lparr>pos := real (k + i + (if include then 1 else 0) + (if consume then 1 else 0))\<rparr>)"
proof -
  let ?u8 = "drop (byteOffset s + k) (buffer s)"
  let ?blen = "real_of_int (stream_size s) - pos s"
  have p0: "0 \<le> pos s" using k by simp
  have fl: "nat \<lfloor>pos s\<rfloor> = k" using k by simp
  have inbuf: "byteOffset s + k + i < length (buffer s)"
    using wf lt by (simp add: stream_size_def)
  have rest: "Uint8Array_rest (buffer s) (real (byteOffset s) + pos s) = Inr ?u8"
    using inbuf by (simp add: Uint8Array_rest_def ToIndex_nonneg [OF p0] fl)
  have get: "u8_get ?u8 j = Some (uint (buffer s ! (byteOffset s + k + j)))" if "j \<le> i" for j
    using that inbuf by (simp add: u8_get_def add.assoc)
  have blen: "real i < ?blen" using lt k by simp
  have scan: "scan_term ?u8 ?blen t 0 = i"
    using blen get found first by (intro scan_term_first) auto
  have ne: "real i \<noteq> ?blen" using blen by simp
  let ?m = "int i + (if include then 1 else 0)"
  have m: "0 \<le> ?m" "?m < 2 ^ 31" using small by auto
  have le: "pos s + of_int ?m \<le> of_int (stream_size s)"
    using lt k by (auto) 
  have rd: "mapUint8Array ?m s =
              (Inr (take (nat ?m) ?u8), s\<lparr>pos := pos s + of_int ?m\<rparr>)"
    using mapUint8Array_ok(1) [OF wf p0 m le] fl by simp
  show ?thesis
    using rest scan ne rd k
    by (cases "include"; cases consume) (simp_all add: readBytesTerm_def Let_def nat_add_distrib)
qed

subsection \<open>Held bits between calls of the bit readers\<close>

text \<open>
  The fill loop adds 8 to \<open>bitsLeft\<close> for every byte. Between calls with \<open>n \<ge> 0\<close>,
  \<open>bitsLeft\<close> stays within 0 and 7 once it is there.
\<close>

lemma fill_be_bitsLeft:
  "bitsLeft (fill_be buf N i s) = bitsLeft s + 8 * (if i < N then N - i else 0)"
proof (induction buf N i s rule: fill_be.induct)
  case (1 buf N i s)
  then show ?case by (simp add: fill_be.simps [of buf N i s])
qed

lemma fill_le_bitsLeft:
  "bitsLeft (fill_le buf N i s) = bitsLeft s + 8 * (if i < N then N - i else 0)"
proof (induction buf N i s rule: fill_le.induct)
  case (1 buf N i s)
  then show ?case by (simp add: fill_le.simps [of buf N i s])
qed

lemma bytes_needed: "0 < (b::int) \<Longrightarrow> \<lceil>real_of_int b / 8\<rceil> = (b + 7) div 8"
proof -
  have "\<lceil>real_of_int b / real_of_int 8\<rceil> = - (- b div 8)"
    by (rule ceiling_divide_eq_div)
  then show ?thesis by simp
qed

lemma mapUint8Array_bits: "mapUint8Array n s = (r, s') \<Longrightarrow> bitsLeft s' = bitsLeft s \<and> bits s' = bits s"
  by (auto simp add: mapUint8Array_def ensureBytesLeft_def Let_def split: if_splits sum.splits)

lemma refill_be_bitsLeft:
  assumes "refill_be n s = (Inr u, s')"
  shows "bitsLeft s' = (if n - bitsLeft s > 0 then bitsLeft s + 8 * ((n - bitsLeft s + 7) div 8)
                        else bitsLeft s)"
proof (cases "n - bitsLeft s > 0")
  case False
  with assms show ?thesis by (simp add: refill_be_def)
next
  case True
  define N where "N = \<lceil>real_of_int (n - bitsLeft s) / 8\<rceil>"
  have N: "N = (n - bitsLeft s + 7) div 8" "0 < N"
    using True bytes_needed [of "n - bitsLeft s"] by (simp_all add: N_def)
  from assms True obtain buf s1 where 1: "mapUint8Array N s = (Inr buf, s1)"
    and 2: "s' = fill_be buf N 0 s1"
    unfolding refill_be_def Let_def readBytes_def N_def [symmetric]
    by (auto split: sum.splits prod.splits)
  from mapUint8Array_bits [OF 1] 2 N True show ?thesis
    by (simp add: fill_be_bitsLeft)
qed

lemma refill_le_bitsLeft:
  assumes "refill_le n s = (Inr u, s')"
  shows "bitsLeft s' = (if n - bitsLeft s > 0 then bitsLeft s + 8 * ((n - bitsLeft s + 7) div 8)
                        else bitsLeft s)"
proof (cases "n - bitsLeft s > 0")
  case False
  with assms show ?thesis by (simp add: refill_le_def)
next
  case True
  define N where "N = \<lceil>real_of_int (n - bitsLeft s) / 8\<rceil>"
  have N: "N = (n - bitsLeft s + 7) div 8" "0 < N"
    using True bytes_needed [of "n - bitsLeft s"] by (simp_all add: N_def)
  from assms True obtain buf s1 where 1: "mapUint8Array N s = (Inr buf, s1)"
    and 2: "s' = fill_le buf N 0 s1"
    unfolding refill_le_def Let_def readBytes_def N_def [symmetric]
    by (auto split: sum.splits prod.splits)
  from mapUint8Array_bits [OF 1] 2 N True show ?thesis
    by (simp add: fill_le_bitsLeft)
qed

lemma bitsLeft_between_calls:
  assumes "0 \<le> bitsLeft s" "bitsLeft s \<le> 7" "0 \<le> n"
  shows "readBitsIntBe n s = (r, s') \<Longrightarrow> 0 \<le> bitsLeft s' \<and> bitsLeft s' \<le> 7"
    and "readBitsIntLe n s = (r, s') \<Longrightarrow> 0 \<le> bitsLeft s' \<and> bitsLeft s' \<le> 7"
proof -
  have ar: "0 \<le> b + 8 * ((n - b + 7) div 8) - n \<and> b + 8 * ((n - b + 7) div 8) - n \<le> 7" for b :: int
    by presburger
  {
    assume a: "readBitsIntBe n s = (r, s')"
    show "0 \<le> bitsLeft s' \<and> bitsLeft s' \<le> 7"
    proof (cases r)
      case (Inl e)
      with a have "s' = s" by (auto dest: readBitsIntBe_fail)
      with assms show ?thesis by simp
    next
      case (Inr v)
      with a obtain s1 where 1: "refill_be n s = (Inr (), s1)" and 2: "s' = snd (take_be n s1)"
        by (auto simp add: readBitsIntBe_def Let_def split: if_splits sum.splits prod.splits)
      have "bitsLeft s' = bitsLeft s1 - n" using 2 by (simp add: take_be_def Let_def)
      with refill_be_bitsLeft [OF 1] assms ar [of "bitsLeft s"] show ?thesis
        by (auto split: if_splits)
    qed
  }
  {
    assume a: "readBitsIntLe n s = (r, s')"
    show "0 \<le> bitsLeft s' \<and> bitsLeft s' \<le> 7"
    proof (cases r)
      case (Inl e)
      with a have "s' = s" by (auto dest: readBitsIntLe_fail)
      with assms show ?thesis by simp
    next
      case (Inr v)
      with a obtain s1 where 1: "refill_le n s = (Inr (), s1)" and 2: "s' = snd (take_le n s1)"
        by (auto simp add: readBitsIntLe_def Let_def split: if_splits sum.splits prod.splits)
      have "bitsLeft s' = bitsLeft s1 - n" using 2 by (simp add: take_le_def Let_def)
      with refill_le_bitsLeft [OF 1] assms ar [of "bitsLeft s"] show ?thesis
        by (auto split: if_splits)
    qed
  }
qed

subsection \<open>Reading no bits\<close>

lemma mask_word: "ToInt32 (js_shl 1 k - 1) = mask (nat (k mod 32))"
  by (simp add: js_shl_def ToInt32_def mask_eq_exp_minus_1)

lemma le0: "0 \<le> bitsLeft s \<Longrightarrow> readBitsIntLe 0 s = (Inr 0, s)"
  by (simp add: readBitsIntLe_def refill_le_def take_le_def js_and_def js_sar_def js_shl_def ToInt32_def)

lemma be0: "0 \<le> bitsLeft s \<Longrightarrow> readBitsIntBe 0 s = (Inr 0, s\<lparr>bits := bits s AND mask (nat (bitsLeft s mod 32))\<rparr>)"
  apply (simp add: readBitsIntBe_def refill_be_def take_be_def Let_def mask_word)
  apply (simp add: js_and_def js_shr_def js_shl_def ToInt32_def mask_eq_exp_minus_1)
  done

lemma be0_same:
  assumes "0 \<le> bitsLeft s" "bitsLeft s < 32" "uint (bits s) < 2 ^ nat (bitsLeft s)"
  shows "readBitsIntBe 0 s = (Inr 0, s)"
proof -
  have "bits s AND mask (nat (bitsLeft s mod 32)) = bits s"
    using assms by (simp add: mask_eq_iff)
  then show ?thesis using assms be0 [of s] by simp
qed

subsection \<open>The signed value of 64 bits\<close>

text \<open>
  With the sign bit of the high half set, the described value is the two's complement
  value \<open>2^32 * high + low - 2^64\<close>. Before any rounding, the expression of the code
  has that value when the low half is at least 2^31, and 2^32 more when the low half is
  below 2^31.
\<close>

lemma sint32: 
  assumes "0 \<le> x" "x < 2 ^ 32"
  shows "sint (word_of_int x :: int32) = (if x < 2 ^ 31 then x else x - 2 ^ 32)"
proof (cases "x < 2 ^ 31")
  case True
  with assms show ?thesis
    by (simp add: sint_sbintrunc' signed_take_bit_int_eq_self)
next
  case False
  define y where "y = x - 2 ^ 32"
  have e: "(word_of_int x :: int32) = word_of_int y"
    by (simp add: y_def)
  have "- (2 ^ 31) \<le> y" "y < 2 ^ 31"
    using assms False by (simp_all add: y_def)
  then have "sint (word_of_int y :: int32) = y"
    by (simp add: sint_sbintrunc' signed_take_bit_int_eq_self)
  then have "sint (word_of_int x :: int32) = y"
    by (simp only: e)
  then show ?thesis using False by (simp add: y_def)
qed

lemma uint32: "0 \<le> x \<Longrightarrow> x < 2 ^ 32 \<Longrightarrow> uint (word_of_int x :: int32) = x"
  by (simp add: uint_word_of_int take_bit_eq_mod)

lemma xor_ones: "(word_of_int x :: int32) XOR 0xFFFFFFFF = word_of_int (4294967295 - x)"
proof -
  have "(0xFFFFFFFF :: int32) = - 1" by simp
  then have "(word_of_int x :: int32) XOR 0xFFFFFFFF = NOT (word_of_int x)"
    by (simp only: bit.xor_one_right)
  also have "\<dots> = - word_of_int x - 1" by (simp add: not_eq_complement)
  also have "\<dots> = word_of_int (4294967295 - x)" by simp
  finally show ?thesis .
qed

lemma s8_negative_expression:
  assumes hi: "2 ^ 31 \<le> hi" "hi < 2 ^ 32" and lo: "0 \<le> lo" "lo < 2 ^ 32"
  shows "described_s8_negative hi lo = 2 ^ 32 * hi + lo - 2 ^ 64"
    and "js_and hi 0x80000000 \<noteq> 0"
    and "- (0x100000000 * js_xor hi 0xffffffff + js_xor lo 0xffffffff) - 1
           = described_s8_negative hi lo + (if lo < 2 ^ 31 then 2 ^ 32 else 0)"
proof -
  have xl: "0 \<le> 4294967295 - lo" "4294967295 - lo < 2 ^ 32" using lo by simp_all
  have xh: "0 \<le> 4294967295 - hi" "4294967295 - hi < 2 ^ 32" "4294967295 - hi < 2 ^ 31" using hi by simp_all
  have w32: "ToInt32 0xffffffff = 0xFFFFFFFF" by (simp add: ToInt32_def)
  show d: "described_s8_negative hi lo = 2 ^ 32 * hi + lo - 2 ^ 64"
    using uint32 [OF xl(1,2)] uint32 [OF xh(1,2)]
    by (simp add: described_s8_negative_def ToInt32_def xor_ones)
  show "js_and hi 0x80000000 \<noteq> 0"
  proof -
    have "hi div 2 ^ 31 = 1" using hi by simp
    then have "bit hi 31" by (simp add: bit_iff_odd)
    then have "bit (ToInt32 hi AND ToInt32 0x80000000) 31"
      by (simp add: ToInt32_def bit_simps)
    then have "ToInt32 hi AND ToInt32 0x80000000 \<noteq> 0" by auto
    then show ?thesis by (simp add: js_and_def signed_eq_0_iff)
  qed
  have jh: "js_xor hi 0xffffffff = 4294967295 - hi"
    using sint32 [OF xh(1,2)] xh(3) by (simp add: js_xor_def w32) (simp add: ToInt32_def xor_ones)
  have jl: "js_xor lo 0xffffffff = (if lo < 2 ^ 31 then - lo - 1 else 4294967295 - lo)"
    using sint32 [OF xl(1,2)] lo by (simp add: js_xor_def w32) (auto simp add: ToInt32_def xor_ones)
  show "- (0x100000000 * js_xor hi 0xffffffff + js_xor lo 0xffffffff) - 1
           = described_s8_negative hi lo + (if lo < 2 ^ 31 then 2 ^ 32 else 0)"
    by (simp add: d jh jl)
qed

subsection \<open>The held bits in one bit order\<close>

lemma snd_returning: "snd (returning f r) = snd r"
  by (simp add: returning_def split: prod.splits sum.splits)

lemma read_fixed_bits:
  "read_fixed w d s = (r, s') \<Longrightarrow> bits s' = bits s \<and> bitsLeft s' = bitsLeft s"
  by (auto dest: read_fixed_cases)

lemma two_halves_bits:
  assumes "(case ensureBytesLeft 8 s of
                 (Inl e, s1) \<Rightarrow> (Inl e, s1)
               | (Inr _, s1) \<Rightarrow>
                   (case read_fixed 4 d s1 of
                      (Inl e, s2) \<Rightarrow> (Inl e, s2)
                    | (Inr v1, s2) \<Rightarrow>
                        (case read_fixed 4 d s2 of
                           (Inl e, s3) \<Rightarrow> (Inl e, s3)
                         | (Inr v2, s3) \<Rightarrow> (Inr (f v1 v2), s3)))) = (r, s')"
  shows "bits s' = bits s \<and> bitsLeft s' = bitsLeft s"
proof -
  obtain r1 s1 where 1: "read_fixed 4 d s = (r1, s1)" by (cases "read_fixed 4 d s")
  obtain r2 s2 where 2: "read_fixed 4 d s1 = (r2, s2)" by (cases "read_fixed 4 d s1")
  from assms 1 2 read_fixed_bits [OF 1] read_fixed_bits [OF 2] show ?thesis
    by (auto simp add: ensureBytesLeft_def split: if_splits sum.splits)
qed

lemma read8_bits:
  "readS8be s = (r, s') \<Longrightarrow> bits s' = bits s \<and> bitsLeft s' = bitsLeft s"
  "readS8le s = (r, s') \<Longrightarrow> bits s' = bits s \<and> bitsLeft s' = bitsLeft s"
  "readU8be s = (r, s') \<Longrightarrow> bits s' = bits s \<and> bitsLeft s' = bitsLeft s"
  "readU8le s = (r, s') \<Longrightarrow> bits s' = bits s \<and> bitsLeft s' = bitsLeft s"
  unfolding readS8be_def readS8le_def readU8be_def readU8le_def readU4be_def readU4le_def
  by (erule two_halves_bits)+

lemma readBytesTerm_bits:
  "readBytesTerm t i c e s = (r, s') \<Longrightarrow> bits s' = bits s \<and> bitsLeft s' = bitsLeft s"
  by (auto simp add: readBytesTerm_def Let_def split: if_splits sum.splits prod.splits
        dest: mapUint8Array_bits)

lemma ensureFixedContents_bits:
  "ensureFixedContents xs s = (r, s') \<Longrightarrow> bits s' = bits s \<and> bitsLeft s' = bitsLeft s"
  by (auto simp add: ensureFixedContents_def readBytes_def split: if_splits sum.splits prod.splits
        dest: mapUint8Array_bits)

lemma run_keeps_bits:
  assumes "\<forall>n. op \<noteq> ReadBitsIntBe n" and "\<forall>n. op \<noteq> ReadBitsIntLe n"
  shows "bits (snd (run op s)) = bits s \<and> bitsLeft (snd (run op s)) = bitsLeft s"
proof (cases op)
  case (EnsureBytesLeft n)
  then show ?thesis by (simp add: snd_returning ensureBytesLeft_def)
next
  case (ReadBytes n)
  then show ?thesis
    using mapUint8Array_bits [of n s] by (cases "mapUint8Array n s") (simp add: snd_returning readBytes_def)
next
  case ReadBytesFull
  then show ?thesis
    using mapUint8Array_bits [of _ s]
    by (cases "readBytesFull s") (simp add: snd_returning readBytesFull_def)
next
  case (ReadBytesTerm t i c e)
  then show ?thesis
    using readBytesTerm_bits [of t i c e s]
    by (cases "readBytesTerm t i c e s") (simp add: snd_returning)
next
  case (EnsureFixedContents xs)
  then show ?thesis
    using ensureFixedContents_bits [of xs s]
    by (cases "ensureFixedContents xs s") (simp add: snd_returning)
next
  case ReadS8be
  then show ?thesis
    using read8_bits(1) [of s] by (cases "readS8be s") (simp add: snd_returning)
next
  case ReadS8le
  then show ?thesis
    using read8_bits(2) [of s] by (cases "readS8le s") (simp add: snd_returning)
next
  case ReadU8be
  then show ?thesis
    using read8_bits(3) [of s] by (cases "readU8be s") (simp add: snd_returning)
next
  case ReadU8le
  then show ?thesis
    using read8_bits(4) [of s] by (cases "readU8le s") (simp add: snd_returning)
next
  case (ReadBitsIntBe n)
  with assms show ?thesis by simp
next
  case (ReadBitsIntLe n)
  with assms show ?thesis by simp
qed (simp_all add: snd_returning fixed_defs, (metis read_fixed_bits prod.collapse)+)


lemma held_bits_fresh: "held_bits_be (KaitaiStream buf off)" "held_bits_le (KaitaiStream buf off)"
  by (simp_all add: held_bits_be_def held_bits_le_def KaitaiStream_def)

lemma held_bits_alignToByte: "held_bits_be (alignToByte s)" "held_bits_le (alignToByte s)"
  by (simp_all add: held_bits_be_def held_bits_le_def alignToByte_def)

lemma held_bits_seek:
  "held_bits_be s \<Longrightarrow> held_bits_be (seek p s)" "held_bits_le s \<Longrightarrow> held_bits_le (seek p s)"
  by (simp_all add: held_bits_be_def held_bits_le_def seek_def Let_def)

lemma held_bits_be_readBitsIntBe:
  assumes "held_bits_be s" and "0 \<le> n"
  shows "held_bits_be (snd (readBitsIntBe n s))"
proof -
  obtain r s' where rs: "readBitsIntBe n s = (r, s')" by (cases "readBitsIntBe n s")
  from assms have b: "0 \<le> bitsLeft s" "bitsLeft s \<le> 7" by (simp_all add: held_bits_be_def)
  from bitsLeft_between_calls(1) [OF b assms(2) rs]
  have l: "0 \<le> bitsLeft s'" "bitsLeft s' \<le> 7" by simp_all
  have "uint (bits s') < 2 ^ nat (bitsLeft s')"
  proof (cases r)
    case (Inl e)
    with rs have "s' = s" by (auto dest: readBitsIntBe_fail)
    with assms show ?thesis by (simp add: held_bits_be_def)
  next
    case (Inr v)
    with rs obtain s1 where 2: "s' = snd (take_be n s1)"
      by (auto simp add: readBitsIntBe_def Let_def split: if_splits sum.splits prod.splits)
         (metis snd_conv)
    have "bits s' = bits s1 AND mask (nat (bitsLeft s' mod 32))"
      unfolding 2 by (simp add: take_be_def Let_def mask_word js_and_def)
    moreover have "nat (bitsLeft s' mod 32) = nat (bitsLeft s')" using l by simp
    ultimately show ?thesis by (simp add: and_mask_lt_2p)
  qed
  with l rs show ?thesis by (simp add: held_bits_be_def)
qed

lemma held_bits_le_readBitsIntLe:
  assumes "held_bits_le s" and "0 \<le> n"
  shows "held_bits_le (snd (readBitsIntLe n s))"
proof -
  obtain r s' where rs: "readBitsIntLe n s = (r, s')" by (cases "readBitsIntLe n s")
  from assms have b: "0 \<le> bitsLeft s" "bitsLeft s \<le> 7" by (simp_all add: held_bits_le_def)
  from bitsLeft_between_calls(2) [OF b assms(2) rs] rs show ?thesis
    by (simp add: held_bits_le_def)
qed

lemma held_bits_be_run:
  assumes "held_bits_be s" and "\<forall>n. op \<noteq> ReadBitsIntLe n" and "\<forall>n. op = ReadBitsIntBe n \<longrightarrow> 0 \<le> n"
  shows "held_bits_be (snd (run op s))"
proof (cases "\<exists>n. op = ReadBitsIntBe n")
  case True
  then obtain n where "op = ReadBitsIntBe n" by blast
  with assms held_bits_be_readBitsIntBe [of s n] show ?thesis
    by (simp add: snd_returning)
next
  case False
  with assms(2) run_keeps_bits [of op s] assms(1) show ?thesis
    by (simp add: held_bits_be_def)
qed

lemma held_bits_le_run:
  assumes "held_bits_le s" and "\<forall>n. op \<noteq> ReadBitsIntBe n" and "\<forall>n. op = ReadBitsIntLe n \<longrightarrow> 0 \<le> n"
  shows "held_bits_le (snd (run op s))"
proof (cases "\<exists>n. op = ReadBitsIntLe n")
  case True
  then obtain n where "op = ReadBitsIntLe n" by blast
  with assms held_bits_le_readBitsIntLe [of s n] show ?thesis
    by (simp add: snd_returning)
next
  case False
  with assms(2) run_keeps_bits [of op s] assms(1) show ?thesis
    by (simp add: held_bits_le_def)
qed

section \<open>Properties\<close>

text \<open>
  C1. \<open>readS8le\<close> on the bytes 00 00 00 00 00 00 00 80, whose more significant half
  0x80000000 has its sign bit set. The described value
  \<open>-((high ^ 0xFFFFFFFF) * 2^32 + (low ^ 0xFFFFFFFF)) - 1\<close> is -9223372036854775808; the
  code returns -9223372032559808512, which is 2^32 more. In the code \<open>v1 ^ 0xffffffff\<close>
  is a signed 32-bit result, so for a low half below 2^31 it is negative (here -1)
  instead of the unsigned complement (here 4294967295).
\<close>

theorem readS8le_sign_bit_only:
  "readS8le (KaitaiStream [0, 0, 0, 0, 0, 0, 0, 0x80] 0)
     = (Inr (- 9223372032559808512), (KaitaiStream [0, 0, 0, 0, 0, 0, 0, 0x80] 0)\<lparr>pos := 8\<rparr>)
   \<and> described_s8_negative 0x80000000 0 = - 9223372036854775808"
  by (simp add: readS8le_def readU4le_def read_fixed_def s8_value_def to_double_def
        double_exp.simps Let_def described_s8_negative_def js_defs stream_defs)

text \<open>
  C2. Reading 32 bits from the four bytes FF FF FF FF on a fresh stream returns -1 from
  both bit readers, not 4294967295: the result of \<open>&\<close> with the mask is a signed 32-bit
  number.
\<close>

theorem readBitsInt_32_all_ones:
  "fst (readBitsIntBe 32 (KaitaiStream [0xff, 0xff, 0xff, 0xff] 0)) = Inr (- 1)
   \<and> fst (readBitsIntLe 32 (KaitaiStream [0xff, 0xff, 0xff, 0xff] 0)) = Inr (- 1)"
  by (simp add: readBitsIntBe_def refill_be_def take_be_def fill_be.simps
        readBitsIntLe_def refill_le_def take_le_def fill_le.simps js_defs stream_defs Let_def)

text \<open>
  C3. On the buffer 41 00 the terminator 0 is found at offset 1. With \<open>include\<close> true the
  returned run is the two bytes 41 00, and the position advances by 2 when \<open>consume\<close> is
  false and by 3, past the end of the two-byte stream, when \<open>consume\<close> is true: the
  terminator is counted once with the run and once more by \<open>consume\<close>. With \<open>include\<close>
  false the position advances by the offset, and by one more when \<open>consume\<close> is true
  (lemma \<open>readBytesTerm_found\<close>).
\<close>

theorem readBytesTerm_include_advance:
  "readBytesTerm 0 True False False (KaitaiStream [0x41, 0] 0)
     = (Inr [0x41, 0], (KaitaiStream [0x41, 0] 0)\<lparr>pos := 2\<rparr>)
   \<and> readBytesTerm 0 True True False (KaitaiStream [0x41, 0] 0)
     = (Inr [0x41, 0], (KaitaiStream [0x41, 0] 0)\<lparr>pos := 3\<rparr>)"
  by (simp add: readBytesTerm_def scan_term.simps js_defs stream_defs Let_def)

text \<open>
  C4. On the buffer 01 00 00 00 00, \<open>readBitsIntBe(7)\<close> leaves one bit held
  (\<open>bitsLeft = 1\<close>). A following \<open>readBitsIntBe(32)\<close> fetches four bytes, so that before
  the result is taken \<open>bitsLeft\<close> is 33; the held bit has been shifted out of the 32-bit
  accumulator and the call returns 0, where the next 32 bits of the input are 1 followed
  by 31 zeros. The little-endian reader reaches 33 in the same way. Between calls
  \<open>bitsLeft\<close> stays within 0 and 7 (lemma \<open>bitsLeft_between_calls\<close>).
\<close>

theorem readBitsInt_bitsLeft_33:
  "bitsLeft (snd (readBitsIntBe 7 (KaitaiStream [1, 0, 0, 0, 0] 0))) = 1
   \<and> bitsLeft (snd (refill_be 32 (snd (readBitsIntBe 7 (KaitaiStream [1, 0, 0, 0, 0] 0))))) = 33
   \<and> fst (readBitsIntBe 32 (snd (readBitsIntBe 7 (KaitaiStream [1, 0, 0, 0, 0] 0)))) = Inr 0
   \<and> bitsLeft (snd (refill_le 32 (snd (readBitsIntLe 7 (KaitaiStream [1, 0, 0, 0, 0] 0))))) = 33"
  by (simp add: readBitsIntBe_def refill_be_def take_be_def fill_be.simps
        readBitsIntLe_def refill_le_def take_le_def fill_le.simps js_defs stream_defs Let_def)

text \<open>
  C5. \<open>ensureFixedContents(expected)\<close> reads \<open>expected.length\<close> bytes with \<open>readBytes\<close>.
  If that read throws, its error is passed on. Otherwise, if the bytes read are, value
  for value, the expected ones, they are returned; if they differ in length or in any
  value, UnexpectedDataError is thrown with the expected values and the bytes read.

  On a stream at a whole position whose window lies in its buffer, and for fewer than
  2^31 expected values: when fewer than \<open>expected.length\<close> bytes are left, the read
  throws EOFError and nothing is consumed; otherwise the bytes read are the next
  \<open>expected.length\<close> bytes and the position advances past them.
\<close>

theorem ensureFixedContents_result:
  "ensureFixedContents expected s =
     (case readBytes (int (length expected)) s of
        (Inl e, s1) \<Rightarrow> (Inl e, s1)
      | (Inr actual, s1) \<Rightarrow>
          if map uint actual = expected then (Inr actual, s1)
          else (Inl (UnexpectedDataError expected actual), s1))
   \<and> (whole_position s \<and> byteLength s \<le> length (buffer s) \<and> length expected < 2 ^ 31 \<longrightarrow>
        readBytes (int (length expected)) s =
          (if pos s + real (length expected) > of_int (stream_size s)
           then (Inl (EOFError (int (length expected)) (of_int (stream_size s) - pos s)), s)
           else (Inr (take (length expected) (drop (byteOffset s + nat \<lfloor>pos s\<rfloor>) (buffer s))),
                 s\<lparr>pos := pos s + real (length expected)\<rparr>)))"
proof (intro conjI impI)
  obtain r s1 where rb: "readBytes (int (length expected)) s = (r, s1)"
    by (cases "readBytes (int (length expected)) s")
  show "ensureFixedContents expected s =
     (case readBytes (int (length expected)) s of
        (Inl e, s1) \<Rightarrow> (Inl e, s1)
      | (Inr actual, s1) \<Rightarrow>
          if map uint actual = expected then (Inr actual, s1)
          else (Inl (UnexpectedDataError expected actual), s1))"
  proof (cases r)
    case (Inl e)
    with rb show ?thesis by (simp add: ensureFixedContents_def)
  next
    case (Inr actual)
    show ?thesis
    proof (cases "length actual = length expected")
      case True
      with rb Inr differs_from_0 [OF True] show ?thesis
        by (simp add: ensureFixedContents_def)
    next
      case False
      then have "map uint actual \<noteq> expected" by auto
      with rb Inr False show ?thesis
        by (simp add: ensureFixedContents_def)
    qed
  qed
next
  assume h: "whole_position s \<and> byteLength s \<le> length (buffer s) \<and> length expected < 2 ^ 31"
  let ?n = "int (length expected)"
  have n: "0 \<le> ?n" "?n < 2 ^ 31" using h by simp_all
  from h have wf: "byteLength s \<le> length (buffer s)" and p0: "0 \<le> pos s"
    by (simp_all add: whole_position_def)
  show "readBytes ?n s =
          (if pos s + real (length expected) > of_int (stream_size s)
           then (Inl (EOFError ?n (of_int (stream_size s) - pos s)), s)
           else (Inr (take (length expected) (drop (byteOffset s + nat \<lfloor>pos s\<rfloor>) (buffer s))),
                 s\<lparr>pos := pos s + real (length expected)\<rparr>))"
  proof (cases "pos s + real (length expected) > of_int (stream_size s)")
    case True
    have "sint (ToInt32 ?n) = ?n" using n by (rule ToInt32_small)
    with True show ?thesis
      by (simp add: readBytes_def mapUint8Array_def ensureBytesLeft_def)
  next
    case False
    then have le: "pos s + of_int ?n \<le> of_int (stream_size s)" by simp
    from mapUint8Array_ok(1) [OF wf p0 n le] False show ?thesis
      by (simp add: readBytes_def)
  qed
qed

text \<open>
  A stream over the buffer 0A 14 1E 28 with byte offset 1, moved to position 1: the next
  byte is 1E.
\<close>

theorem ensureFixedContents_result_witness:
  "whole_position (seek (Fin 1) (KaitaiStream [0x0A, 0x14, 0x1E, 0x28] 1))
   \<and> byteLength (seek (Fin 1) (KaitaiStream [0x0A, 0x14, 0x1E, 0x28] 1))
        \<le> length (buffer (seek (Fin 1) (KaitaiStream [0x0A, 0x14, 0x1E, 0x28] 1)))
   \<and> length [0x1E, 0x28 :: int] < 2 ^ 31
   \<and> ensureFixedContents [0x1E, 0x28] (seek (Fin 1) (KaitaiStream [0x0A, 0x14, 0x1E, 0x28] 1))
       = (Inr [0x1E, 0x28], (KaitaiStream [0x0A, 0x14, 0x1E, 0x28] 1)\<lparr>pos := 3\<rparr>)
   \<and> ensureFixedContents [0x14] (seek (Fin 1) (KaitaiStream [0x0A, 0x14, 0x1E, 0x28] 1))
       = (Inl (UnexpectedDataError [0x14] [0x1E]),
          (KaitaiStream [0x0A, 0x14, 0x1E, 0x28] 1)\<lparr>pos := 2\<rparr>)
   \<and> ensureFixedContents [0x1E, 0x28, 0x32] (seek (Fin 1) (KaitaiStream [0x0A, 0x14, 0x1E, 0x28] 1))
       = (Inl (EOFError 3 2), (KaitaiStream [0x0A, 0x14, 0x1E, 0x28] 1)\<lparr>pos := 1\<rparr>)"
proof -
  let ?s = "seek (Fin 1) (KaitaiStream [0x0A, 0x14, 0x1E, 0x28] 1)"
  have s: "?s = \<lparr>buffer = [0x0A, 0x14, 0x1E, 0x28], byteOffset = 1, byteLength = 4,
                   pos = 1, bits = 0, bitsLeft = 0\<rparr>"
    by (simp add: seek_def Math_min_def Math_max_def isNaN_def Let_def stream_defs)
  show ?thesis
    using ensureFixedContents_result [of "[0x1E, 0x28]" ?s]
          ensureFixedContents_result [of "[0x14]" ?s]
          ensureFixedContents_result [of "[0x1E, 0x28, 0x32]" ?s]
    unfolding s
    by (simp add: whole_position_def KaitaiStream_def stream_size_def)
qed

text \<open>
  C6. \<open>seek(p)\<close> sets the position to \<open>clamp(p, 0, size)\<close>, that is
  \<open>max(0, min(size, p))\<close>, for every \<open>p\<close> that is not NaN: for a finite \<open>p\<close>, for
  +Infinity (the position becomes \<open>size\<close>) and for -Infinity (it becomes 0). For NaN it
  sets the position to 0. No other field changes.
\<close>

theorem seek_clamps:
  "pos (seek (Fin r) s) = max 0 (min (of_int (stream_size s)) r)
   \<and> pos (seek PInf s) = max 0 (of_int (stream_size s))
   \<and> pos (seek NInf s) = 0
   \<and> pos (seek NaN s) = 0
   \<and> (seek p s)\<lparr>pos := pos s\<rparr> = s"
  by (simp add: seek_def Math_min_def Math_max_def isNaN_def Let_def max_def min_def)

text \<open>On a stream of two bytes \<open>seek(+Infinity)\<close> sets the position to 2, not to 0.\<close>

theorem seek_infinity_counterexample:
  "pos (seek PInf (KaitaiStream [1, 2] 0)) = 2 \<and> pos (seek PInf (KaitaiStream [1, 2] 0)) \<noteq> 0"
  by (simp add: seek_def Math_min_def Math_max_def isNaN_def Let_def stream_defs)

text \<open>
  C7. For an amount \<open>a\<close> from 0 to 7, \<open>processRotateLeft(x, a, 1)\<close> rotates every byte
  left by \<open>a\<close> bits, and rotating the result by the complementary amount \<open>(-a) mod 8\<close>
  gives \<open>x\<close> back.
\<close>

theorem processRotateLeft_roundtrip:
  assumes "0 \<le> a" and "a \<le> 7"
  shows "processRotateLeft x a 1 = Inr (map (word_rotl (nat a)) x)
         \<and> processRotateLeft (map (word_rotl (nat a)) x) ((- a) mod 8) 1 = Inr x"
proof -
  have fwd: "processRotateLeft x a 1 = Inr (map (word_rotl (nat a)) x)"
    using assms by (rule processRotateLeft_rotl)
  have "0 \<le> (- a) mod 8" and "(- a) mod 8 \<le> 7"
    by simp_all
  then have "processRotateLeft (map (word_rotl (nat a)) x) ((- a) mod 8) 1
               = Inr (map (word_rotl (nat ((- a) mod 8))) (map (word_rotl (nat a)) x))"
    by (rule processRotateLeft_rotl)
  also have "nat ((- a) mod 8) = (8 - nat a) mod 8"
    using assms by (rule anti_amount)
  also have "map (word_rotl ((8 - nat a) mod 8)) (map (word_rotl (nat a)) x) = x"
    using assms by (simp add: rotl_back map_idI)
  finally show ?thesis using fwd by simp
qed

theorem processRotateLeft_roundtrip_witness:
  "(0::int) \<le> 3 \<and> (3::int) \<le> 7
   \<and> processRotateLeft [0x81, 0x01] 3 1 = Inr [0x0c, 0x08]
   \<and> processRotateLeft [0x0c, 0x08] 5 1 = Inr [0x81, 0x01]"
proof -
  have e: "processRotateLeft [0x81, 0x01] 3 1 = Inr [0x0c, 0x08]"
    by (simp add: processRotateLeft_def rotate_byte_def js_defs)
  have "processRotateLeft [0x81, 0x01] 3 1 = Inr (map (word_rotl (nat 3)) [0x81, 0x01])
        \<and> processRotateLeft (map (word_rotl (nat 3)) [0x81, 0x01]) ((- 3) mod 8) 1
            = Inr [0x81, 0x01]"
    by (rule processRotateLeft_roundtrip) simp_all
  with e have "processRotateLeft [0x0c, 0x08] ((- 3) mod 8) 1 = Inr [0x81, 0x01]"
    by (metis sum.inject(2))
  with e show ?thesis by simp
qed

text \<open>
  With amount 1 the byte 80 becomes 01; with amount -1 the byte 01 becomes 00 (the shift
  count of \<open><<\<close> is -1 modulo 32, and \<open>>> 1\<close> drops the low bit), so the round trip
  through 1 and -1 does not give 80 back.
\<close>

theorem processRotateLeft_negative_counterexample:
  "processRotateLeft [0x80] 1 1 = Inr [0x01]
   \<and> processRotateLeft [0x01] (- 1) 1 = Inr [0x00]
   \<and> [0x00] \<noteq> [0x80 :: byte]"
  by (simp add: processRotateLeft_def rotate_byte_def js_defs)

text \<open>
  C8. For every integer \<open>n\<close> (nonnegative or not) and every stream at a whole position,
  \<open>ensureBytesLeft(n)\<close> succeeds exactly when \<open>pos + n \<le> size\<close>; otherwise it throws the
  EOFError that carries \<open>bytesRequired = n\<close> and \<open>bytesAvailable = size - pos\<close>. Either
  way the stream is untouched.
\<close>

theorem ensureBytesLeft_iff:
  assumes "whole_position s"
  shows "(fst (ensureBytesLeft n s) = Inr ()) = (pos s + of_int n \<le> of_int (stream_size s))
         \<and> (\<not> pos s + of_int n \<le> of_int (stream_size s) \<longrightarrow>
              fst (ensureBytesLeft n s) = Inl (EOFError n (of_int (stream_size s) - pos s)))
         \<and> snd (ensureBytesLeft n s) = s"
  by (simp add: ensureBytesLeft_def)

text \<open>A stream of three bytes, moved to position 1 after three bits were read.\<close>

theorem ensureBytesLeft_iff_witness:
  "whole_position (seek (Fin 1) (snd (readBitsIntBe 3 (KaitaiStream [0xA5, 2, 3] 0))))
   \<and> seek (Fin 1) (snd (readBitsIntBe 3 (KaitaiStream [0xA5, 2, 3] 0)))
       = \<lparr>buffer = [0xA5, 2, 3], byteOffset = 0, byteLength = 3, pos = 1, bits = 5, bitsLeft = 5\<rparr>
   \<and> fst (ensureBytesLeft 3 (seek (Fin 1) (snd (readBitsIntBe 3 (KaitaiStream [0xA5, 2, 3] 0)))))
       = Inl (EOFError 3 2)
   \<and> fst (ensureBytesLeft 2 (seek (Fin 1) (snd (readBitsIntBe 3 (KaitaiStream [0xA5, 2, 3] 0)))))
       = Inr ()"
proof -
  let ?s = "seek (Fin 1) (snd (readBitsIntBe 3 (KaitaiStream [0xA5, 2, 3] 0)))"
  have s: "?s = \<lparr>buffer = [0xA5, 2, 3], byteOffset = 0, byteLength = 3, pos = 1,
                   bits = 5, bitsLeft = 5\<rparr>"
    by (simp add: seek_def Math_min_def Math_max_def isNaN_def readBitsIntBe_def refill_be_def
          take_be_def fill_be.simps js_defs stream_defs Let_def)
  have w: "whole_position ?s"
    unfolding s by (simp add: whole_position_def)
  show ?thesis
    using w s ensureBytesLeft_iff [OF w, of 3] ensureBytesLeft_iff [OF w, of 2]
    by (simp add: stream_size_def)
qed

text \<open>
  C9. Whenever a reader operation fails with the EOFError of \<open>ensureBytesLeft\<close>, with
  the Error for \<open>n > 32\<close> of a bit reader, or with the missing-terminator failure of
  \<open>readBytesTerm\<close>, the stream (\<open>pos\<close>, \<open>bits\<close>, \<open>bitsLeft\<close> and the buffer) is
  exactly as before the call.
\<close>

theorem failed_read_keeps_state:
  assumes "run op s = (Inl e, s')" and "listed_failure e"
  shows "s' = s"
proof (cases op)
  case (EnsureBytesLeft n)
  with assms show ?thesis by (auto dest!: returning_Inl ensureBytesLeft_state)
next
  case (ReadBytes n)
  with assms show ?thesis by (auto simp add: readBytes_def dest!: returning_Inl mapUint8Array_fail)
next
  case ReadBytesFull
  with assms show ?thesis by (auto simp add: readBytesFull_def dest!: returning_Inl mapUint8Array_fail)
next
  case (ReadBytesTerm t i c eos)
  with assms show ?thesis by (auto dest!: returning_Inl readBytesTerm_fail)
next
  case (EnsureFixedContents xs)
  with assms show ?thesis by (auto dest!: returning_Inl ensureFixedContents_fail)
next
  case ReadS8be
  with assms show ?thesis by (auto dest!: returning_Inl read8_fail(1))
next
  case ReadS8le
  with assms show ?thesis by (auto dest!: returning_Inl read8_fail(2))
next
  case ReadU8be
  with assms show ?thesis by (auto dest!: returning_Inl read8_fail(3))
next
  case ReadU8le
  with assms show ?thesis by (auto dest!: returning_Inl read8_fail(4))
next
  case (ReadBitsIntBe n)
  with assms show ?thesis by (auto dest!: returning_Inl readBitsIntBe_fail)
next
  case (ReadBitsIntLe n)
  with assms show ?thesis by (auto dest!: returning_Inl readBitsIntLe_fail)
qed (use assms in \<open>auto simp add: fixed_defs dest!: returning_Inl read_fixed_fail\<close>)

theorem failed_read_keeps_state_witness:
  "fst (run ReadS8le (KaitaiStream [1, 2, 3, 4, 5] 0)) = Inl (EOFError 8 5)
   \<and> listed_failure (EOFError 8 5)
   \<and> snd (run ReadS8le (KaitaiStream [1, 2, 3, 4, 5] 0)) = KaitaiStream [1, 2, 3, 4, 5] 0
   \<and> fst (run (ReadBitsIntBe 33) (KaitaiStream [1, 2, 3, 4, 5] 0)) = Inl (Error_readBitsIntBe 33)
   \<and> listed_failure (Error_readBitsIntBe 33)
   \<and> snd (run (ReadBitsIntBe 33) (KaitaiStream [1, 2, 3, 4, 5] 0)) = KaitaiStream [1, 2, 3, 4, 5] 0
   \<and> fst (run (ReadBytesTerm 0 False True True) (KaitaiStream [1, 2, 3, 4, 5] 0))
       = Inl (Thrown_no_terminator 0)
   \<and> listed_failure (Thrown_no_terminator 0)
   \<and> snd (run (ReadBytesTerm 0 False True True) (KaitaiStream [1, 2, 3, 4, 5] 0))
       = KaitaiStream [1, 2, 3, 4, 5] 0"
proof -
  let ?s = "KaitaiStream [1, 2, 3, 4, 5] 0"
  have a: "fst (run ReadS8le ?s) = Inl (EOFError 8 5)"
    by (simp add: returning_def readS8le_def stream_defs)
  have b: "fst (run (ReadBitsIntBe 33) ?s) = Inl (Error_readBitsIntBe 33)"
    by (simp add: returning_def readBitsIntBe_def)
  have c: "fst (run (ReadBytesTerm 0 False True True) ?s) = Inl (Thrown_no_terminator 0)"
    by (simp add: returning_def readBytesTerm_def scan_term.simps js_defs stream_defs Let_def)
  have a': "run ReadS8le ?s = (Inl (EOFError 8 5), snd (run ReadS8le ?s))"
    using a by (metis prod.collapse)
  have b': "run (ReadBitsIntBe 33) ?s = (Inl (Error_readBitsIntBe 33), snd (run (ReadBitsIntBe 33) ?s))"
    using b by (metis prod.collapse)
  have c': "run (ReadBytesTerm 0 False True True) ?s
             = (Inl (Thrown_no_terminator 0), snd (run (ReadBytesTerm 0 False True True) ?s))"
    using c by (metis prod.collapse)
  show ?thesis
    using a b c failed_read_keeps_state [OF a'] failed_read_keeps_state [OF b']
          failed_read_keeps_state [OF c']
    by simp
qed

text \<open>
  C10. In every state the stream can hold between calls when one bit order is used,
  at end of stream or not, reading no bits succeeds, returns 0, reads no byte and
  changes nothing: \<open>readBitsIntBe(0)\<close> in the states kept by the big-endian reader,
  \<open>readBitsIntLe(0)\<close> in the states kept by the little-endian reader.
\<close>

theorem readBitsInt_zero_bits:
  "(held_bits_be s \<longrightarrow> readBitsIntBe 0 s = (Inr 0, s))
   \<and> (held_bits_le s \<longrightarrow> readBitsIntLe 0 s = (Inr 0, s))"
  using le0 [of s] be0_same [of s] by (simp add: held_bits_be_def held_bits_le_def)

theorem readBitsInt_zero_bits_witness:
  "held_bits_be (snd (readBitsIntBe 3 (KaitaiStream [0xff] 0)))
   \<and> snd (readBitsIntBe 3 (KaitaiStream [0xff] 0))
       = \<lparr>buffer = [0xff], byteOffset = 0, byteLength = 1, pos = 1, bits = 0x1f, bitsLeft = 5\<rparr>
   \<and> readBitsIntBe 0 (snd (readBitsIntBe 3 (KaitaiStream [0xff] 0)))
       = (Inr 0, snd (readBitsIntBe 3 (KaitaiStream [0xff] 0)))
   \<and> held_bits_le (snd (readBitsIntLe 3 (KaitaiStream [0xff] 0)))
   \<and> snd (readBitsIntLe 3 (KaitaiStream [0xff] 0))
       = \<lparr>buffer = [0xff], byteOffset = 0, byteLength = 1, pos = 1, bits = 0x1f, bitsLeft = 5\<rparr>
   \<and> readBitsIntLe 0 (snd (readBitsIntLe 3 (KaitaiStream [0xff] 0)))
       = (Inr 0, snd (readBitsIntLe 3 (KaitaiStream [0xff] 0)))"
proof -
  have be: "snd (readBitsIntBe 3 (KaitaiStream [0xff] 0))
       = \<lparr>buffer = [0xff], byteOffset = 0, byteLength = 1, pos = 1, bits = 0x1f, bitsLeft = 5\<rparr>"
    by (simp add: readBitsIntBe_def refill_be_def take_be_def fill_be.simps js_defs stream_defs Let_def)
  have le: "snd (readBitsIntLe 3 (KaitaiStream [0xff] 0))
       = \<lparr>buffer = [0xff], byteOffset = 0, byteLength = 1, pos = 1, bits = 0x1f, bitsLeft = 5\<rparr>"
    by (simp add: readBitsIntLe_def refill_le_def take_le_def fill_le.simps js_defs stream_defs Let_def)
  have hb: "held_bits_be (snd (readBitsIntBe 3 (KaitaiStream [0xff] 0)))"
    unfolding be by (simp add: held_bits_be_def)
  have hl: "held_bits_le (snd (readBitsIntLe 3 (KaitaiStream [0xff] 0)))"
    unfolding le by (simp add: held_bits_le_def)
  show ?thesis
    using be le hb hl
      readBitsInt_zero_bits [of "snd (readBitsIntBe 3 (KaitaiStream [0xff] 0))"]
      readBitsInt_zero_bits [of "snd (readBitsIntLe 3 (KaitaiStream [0xff] 0))"]
    by simp
qed

end
